theory Spec2Isabelle
  imports Complex_Main
begin

section \<open>NoiseTools: a shallow embedding of NoiseTools.py\<close>

text \<open>
  The module is a flat library of numpy functions. Arrays of float64 samples are modelled
  as lists of reals (complex arrays as lists of complex numbers): the values of samples
  are exact, and \<open>nan\<close> and \<open>inf\<close> are not part of the model. The positions at which
  \<open>resamp\<close> and \<open>resample\<close> cut an array are different: the code computes them in
  float64 and truncates, so rounding decides which samples are read. Those computations
  are modelled in float64 arithmetic (\<open>fl64\<close> below).
  Python integers are \<open>int\<close>. The module is Python 2 code: \<open>/\<close> between two integers is
  floor division (\<open>len(spec)/2\<close> is used as a slice bound), written \<open>div\<close> here.
  An exception is a value \<open>Inl e\<close> of the result type \<open>py_error + 'a\<close>.
\<close>

subsection \<open>Exceptions and numpy primitives\<close>

datatype py_error =
    ZeroDivisionError
  | ValueError
  | OverflowError
  | TypeError
  | IndexError
  | RuntimeError string

text \<open>\<open>xs[a:b]\<close> for integer bounds: negative bounds count from the end, and both are
  clipped to the array, so a slice never raises.\<close>

definition py_bound :: "'a list \<Rightarrow> int \<Rightarrow> nat" where
  "py_bound xs a =
     (let n = int (length xs)
      in nat (if a < 0 then max 0 (a + n) else min a n))"

definition py_slice :: "'a list \<Rightarrow> int \<Rightarrow> int \<Rightarrow> 'a list" where
  "py_slice xs a b = drop (py_bound xs a) (take (py_bound xs b) xs)"

text \<open>\<open>xs[i]\<close> for an integer index: a negative index counts from the end, and an index
  outside the array raises \<open>IndexError\<close>.\<close>

definition py_index :: "'a list \<Rightarrow> int \<Rightarrow> py_error + 'a" where
  "py_index xs i =
     (let j = (if i < 0 then i + int (length xs) else i)
      in if j < 0 \<or> int (length xs) \<le> j then Inl IndexError else Inr (xs ! nat j))"

text \<open>Sequencing of calls that may raise: the first exception is the result.\<close>

definition bind_err :: "py_error + 'a \<Rightarrow> ('a \<Rightarrow> py_error + 'b) \<Rightarrow> py_error + 'b" where
  "bind_err m f = (case m of Inl e \<Rightarrow> Inl e | Inr v \<Rightarrow> f v)"

text \<open>\<open>zeros(N)\<close> raises \<open>ValueError\<close> for a negative dimension.\<close>

definition zeros :: "int \<Rightarrow> py_error + real list" where
  "zeros N = (if N < 0 then Inl ValueError else Inr (replicate (nat N) 0))"

text \<open>\<open>arange(1.*M)\<close> for an integer \<open>M\<close>: the floats \<open>0, 1, ..., M-1\<close> (empty when
  \<open>M \<le> 0\<close>).\<close>

definition arange :: "int \<Rightarrow> real list" where
  "arange M = map real [0..<nat M]"

text \<open>\<open>.astype('i')\<close> and \<open>int(...)\<close> on a float truncate towards zero. (The 32-bit range
  of \<open>astype('i')\<close> is not modelled: array lengths are far below it.)\<close>

definition trunc :: "real \<Rightarrow> int" where
  "trunc r = (if 0 \<le> r then \<lfloor>r\<rfloor> else \<lceil>r\<rceil>)"

text \<open>\<open>average(a)\<close> is the arithmetic mean. On an empty array numpy returns \<open>nan\<close>, which
  the model does not have; the properties below that rely on \<open>average\<close> show that the
  slice it is applied to is not empty.\<close>

definition average :: "real list \<Rightarrow> real" where
  "average a = sum_list a / real (length a)"

text \<open>\<open>diff(a)\<close>: \<open>out[i] = a[i+1] - a[i]\<close>.\<close>

fun diff_arr :: "real list \<Rightarrow> real list" where
  "diff_arr (a # b # cs) = (b - a) # diff_arr (b # cs)"
| "diff_arr [a] = []"
| "diff_arr [] = []"

text \<open>\<open>compress(condition, a)\<close>: the elements of \<open>a\<close> at the positions where
  \<open>condition\<close> holds.\<close>

definition compress :: "bool list \<Rightarrow> 'a list \<Rightarrow> 'a list" where
  "compress condition a = map snd (filter fst (zip condition a))"

text \<open>\<open>argmax(a)\<close>: the index of the first occurrence of the maximum; \<open>ValueError\<close> on an
  empty array.\<close>

fun argmax_from :: "nat \<Rightarrow> nat \<Rightarrow> real \<Rightarrow> real list \<Rightarrow> nat" where
  "argmax_from i best m [] = best"
| "argmax_from i best m (v # vs) =
     (if m < v then argmax_from (Suc i) i v vs else argmax_from (Suc i) best m vs)"

definition argmax :: "real list \<Rightarrow> py_error + nat" where
  "argmax a = (case a of [] \<Rightarrow> Inl ValueError | v # vs \<Rightarrow> Inr (argmax_from 1 0 v vs))"

text \<open>Python's \<open>a % b\<close> on floats: \<open>a - b * floor(a / b)\<close>, which for \<open>b > 0\<close> lies in
  \<open>[0, b)\<close>.\<close>

definition py_fmod :: "real \<Rightarrow> real \<Rightarrow> real" where
  "py_fmod a b = a - b * of_int \<lfloor>a / b\<rfloor>"

text \<open>\<open>numpy.fft.fft\<close> and \<open>ifft\<close> are the discrete Fourier transform and its inverse, as
  numpy documents them: \<open>A[k] = sum_m a[m] exp(-2 pi i m k / n)\<close> and
  \<open>a[m] = (1/n) sum_k A[k] exp(2 pi i m k / n)\<close>. Both raise \<open>ValueError\<close> on an empty
  array.\<close>

definition fft :: "complex list \<Rightarrow> py_error + complex list" where
  "fft a =
     (let n = length a
      in if n = 0 then Inl ValueError
         else Inr (map (\<lambda>k. \<Sum>m<n. a ! m * cis (- (2 * pi * real m * real k / real n)))
                       [0..<n]))"

definition ifft :: "complex list \<Rightarrow> py_error + complex list" where
  "ifft A =
     (let n = length A
      in if n = 0 then Inl ValueError
         else Inr (map (\<lambda>m. (\<Sum>k<n. A ! k * cis (2 * pi * real m * real k / real n))
                              / of_nat n)
                       [0..<n]))"

subsection \<open>float64 arithmetic\<close>

text \<open>
  IEEE 754 binary64 arithmetic gives, for \<open>+\<close>, \<open>-\<close>, \<open>*\<close> and \<open>/\<close>, the exact result rounded
  to the nearest number with a 53-bit significand, ties to the even significand.
  \<open>round_even\<close> rounds a real to the nearest integer, ties to even; \<open>fl64 r\<close> scales \<open>r\<close>
  by the power of two that puts its significand between \<open>2^52\<close> and \<open>2^53\<close>, rounds, and
  scales back. The exponent range of binary64 (overflow, subnormal numbers) is not
  modelled: the numbers rounded below are array positions and their quotients.
\<close>

definition round_even :: "real \<Rightarrow> int" where
  "round_even q =
     (let f = \<lfloor>q\<rfloor>; d = q - of_int f
      in if d < 1 / 2 then f
         else if 1 / 2 < d then f + 1
         else if even f then f else f + 1)"

definition fl64 :: "real \<Rightarrow> real" where
  "fl64 r =
     (if r = 0 then 0
      else (let e = \<lfloor>log 2 \<bar>r\<bar>\<rfloor>;
                u = 2 powr of_int (e - 52)
            in of_int (round_even (r / u)) * u))"

text \<open>
  numpy's \<open>log\<close> and \<open>exp\<close> on a float64 are the platform's C library functions. IEEE 754
  does not fix their results to the last bit, so they are parameters of the model.
\<close>

record libm =
  np_log :: "real \<Rightarrow> real"
  np_exp :: "real \<Rightarrow> real"

subsection \<open>resample and resamp\<close>

text \<open>
  The linear branch, lines 148-154 of \<open>resample\<close> and 193-199 of \<open>resamp\<close> (the same code):
  \<^verbatim>\<open>
  result = zeros(N).astype(x.dtype.char)
  dn = 1.*len(x)/N
  index = arange(1.*(N+1))*dn
  index = index.astype('i')
  index[-1] = len(x)
  for i in range(N):
      result[i] = average(x[index[i]:index[i+1]])
  \<close>
  \<open>1.*len(x)/N\<close> divides a Python float by a Python int and raises
  \<open>ZeroDivisionError\<close> when \<open>N\<close> is \<open>0\<close>. Beyond that point \<open>N \<ge> 1\<close>, so \<open>index\<close> has
  \<open>N + 1\<close> elements and \<open>index[-1]\<close> is its last one. \<open>.astype(x.dtype.char)\<close> gives
  the result the element type of \<open>x\<close>, which is float64 here. The quotient \<open>dn\<close> and the
  products \<open>arange(1.*(N+1))*dn\<close> are float64 operations, each rounded; \<open>arange\<close> holds
  the integers \<open>0, ..., N\<close> as floats.
\<close>

definition lin_average :: "real list \<Rightarrow> int \<Rightarrow> py_error + real list" where
  "lin_average x N =
     bind_err (zeros N) (\<lambda>result.
       if N = 0 then Inl ZeroDivisionError
       else
         (let dn = fl64 (fl64 (1 * real (length x)) / fl64 (real_of_int N));
              index = map (\<lambda>v. trunc (fl64 (v * dn))) (arange (N + 1));
              index = index[length index - 1 := int (length x)]
          in Inr (fold (\<lambda>i result.
                          result[i := average (py_slice x (index ! i) (index ! (i + 1)))])
                       [0..<nat N] result)))"

text \<open>
  The logarithmic branch, lines 158-170 of \<open>resample\<close> and 203-215 of \<open>resamp\<close>:
  \<^verbatim>\<open>
  startlog = log(1.)
  endlog = log(len(x)+1)
  dlog = (endlog-startlog)/N
  logrange = arange(1.*(N+1))*dlog + startlog
  logindex = exp(logrange).astype('i')-1
  logindex[-1] = len(x)
  result = zeros(N).astype(x.dtype.char)
  for i in range(N):
      if logindex[i] != logindex[i+1]:
          result[i] = average(x[logindex[i]:logindex[i+1]])
      else:
          result[i] = x[logindex[i]]
  \<close>
  Here the division is numpy's and does not raise (for \<open>N = 0\<close> it yields \<open>inf\<close> or
  \<open>nan\<close>, which the model does not have; the one element of \<open>logindex\<close> computed from it
  is overwritten by \<open>logindex[-1] = len(x)\<close>). For negative \<open>N\<close> the array \<open>logindex\<close>
  is empty and \<open>logindex[-1]\<close> raises \<open>IndexError\<close>. Every operation on the way to
  \<open>logindex\<close> is a float64 operation: \<open>log\<close> and \<open>exp\<close> are the library's, the
  subtraction, division, product and sum are rounded.
\<close>

definition log_average :: "libm \<Rightarrow> real list \<Rightarrow> int \<Rightarrow> py_error + real list" where
  "log_average m x N =
     (let startlog = np_log m 1;
          endlog = np_log m (fl64 (real (length x + 1)));
          dlog = fl64 (fl64 (endlog - startlog) / fl64 (real_of_int N));
          logrange = map (\<lambda>v. fl64 (fl64 (v * dlog) + startlog)) (arange (N + 1));
          logindex = map (\<lambda>r. trunc (np_exp m r) - 1) logrange
      in if logindex = [] then Inl IndexError
         else
           (let logindex = logindex[length logindex - 1 := int (length x)]
            in bind_err (zeros N) (\<lambda>result.
                 fold (\<lambda>i acc. bind_err acc (\<lambda>result.
                         if logindex ! i \<noteq> logindex ! (i + 1)
                         then Inr (result[i := average (py_slice x (logindex ! i)
                                                                   (logindex ! (i + 1)))])
                         else bind_err (py_index x (logindex ! i))
                                (\<lambda>v. Inr (result[i := v]))))
                      [0..<nat N] (Inr result))))"

text \<open>
  \<^verbatim>\<open>
  def resamp(x, N, type='lin'):
      if len(x) <= N:
          return x
      if type == 'lin': ...
          return result
      if type == 'log': ...
          return result
      raise RuntimeError("Unknown type")
  \<close>
\<close>

definition resamp :: "libm \<Rightarrow> real list \<Rightarrow> int \<Rightarrow> string \<Rightarrow> py_error + real list" where
  "resamp m x N type =
     (if int (length x) \<le> N then Inr x
      else if type = ''lin'' then lin_average x N
      else if type = ''log'' then log_average m x N
      else Inl (RuntimeError ''Unknown type''))"

text \<open>
  \<open>resample\<close> returns a Python list: \<open>[]\<close> or the two arrays \<open>[resultx, resulty]\<close>. Its
  model returns the lines it prints together with the result.
  \<^verbatim>\<open>
  def resample(x, y, N, type='lin'):
      if len(x) != len(y):
          print("x and y need to be equally long")
          return []
      if len(y) <= N:
          return [x, y]
      if type == 'lin':
          dx = (x[-1]-x[0])/N
          resultx = arange(1.*N)*dx+x[0]+dx/2
          ... (linear branch on y)
          return [resultx, resulty]
      if type == 'log':
          ... (logarithmic branch on y)
          if x[0] > 0:
              startlog = log(x[0])
          else:
              startlog = log(x[1])
          endlog = log(x[-1])
          dlog = (endlog-startlog)/N
          resultx = exp(arange(1.*N)*dlog+startlog+dlog/2)
          return [resultx, resulty]
      print("type unknown!")
      return arange([])
  \<close>
  \<open>(x[-1]-x[0])/N\<close> is a numpy division and does not raise; where numpy yields \<open>inf\<close>
  or \<open>nan\<close> (division by \<open>N = 0\<close>, \<open>log\<close> of a non-positive value) the model holds the
  value HOL gives the same expression, and no property below reads it. The x-axis
  \<open>resultx\<close> is a sequence of sample values, so its arithmetic is exact, with \<open>ln\<close> and
  \<open>exp\<close> of the reals. The last line calls \<open>arange\<close> on a list, which numpy rejects with
  \<open>TypeError\<close>.
\<close>

definition resample_lin :: "real list \<Rightarrow> real list \<Rightarrow> int \<Rightarrow> py_error + real list list" where
  "resample_lin x y N =
     bind_err (py_index x (- 1)) (\<lambda>xlast.
     bind_err (py_index x 0) (\<lambda>xfirst.
       (let dx = (xlast - xfirst) / real_of_int N;
            resultx = map (\<lambda>v. v * dx + xfirst + dx / 2) (arange N)
        in bind_err (lin_average y N) (\<lambda>resulty. Inr [resultx, resulty]))))"

definition resample_log ::
  "libm \<Rightarrow> real list \<Rightarrow> real list \<Rightarrow> int \<Rightarrow> py_error + real list list" where
  "resample_log m x y N =
     bind_err (log_average m y N) (\<lambda>resulty.
     bind_err (py_index x 0) (\<lambda>xfirst.
     bind_err (if xfirst > 0 then Inr (ln xfirst)
               else bind_err (py_index x 1) (\<lambda>xsecond. Inr (ln xsecond))) (\<lambda>startlog.
     bind_err (py_index x (- 1)) (\<lambda>xlast.
       (let endlog = ln xlast;
            dlog = (endlog - startlog) / real_of_int N;
            resultx = map (\<lambda>v. exp (v * dlog + startlog + dlog / 2)) (arange N)
        in Inr [resultx, resulty])))))"

definition resample ::
  "libm \<Rightarrow> real list \<Rightarrow> real list \<Rightarrow> int \<Rightarrow> string
     \<Rightarrow> string list \<times> (py_error + real list list)" where
  "resample m x y N type =
     (if length x \<noteq> length y then ([''x and y need to be equally long''], Inr [])
      else if int (length y) \<le> N then ([], Inr [x, y])
      else if type = ''lin'' then ([], resample_lin x y N)
      else if type = ''log'' then ([], resample_log m x y N)
      else ([''type unknown!''], Inl TypeError))"

subsection \<open>spectrum and ispectrum\<close>

text \<open>
  \<^verbatim>\<open>
  def spectrum(signal):
      return fft(signal)/len(signal)

  def ispectrum(spec):
      return ifft(spec)*len(spec)
  \<close>
\<close>

definition spectrum :: "complex list \<Rightarrow> py_error + complex list" where
  "spectrum signal =
     bind_err (fft signal) (\<lambda>A. Inr (map (\<lambda>z. z / of_nat (length signal)) A))"

definition ispectrum :: "complex list \<Rightarrow> py_error + complex list" where
  "ispectrum spec =
     bind_err (ifft spec) (\<lambda>a. Inr (map (\<lambda>z. z * of_nat (length spec)) a))"

subsection \<open>rotate\<close>

text \<open>
  \<^verbatim>\<open>
  def rotate(array, n=1):
      n = -n
      if len(array) == 0:
          return array
      n = n % len(array)
      return concatenate((array[n:], array[:n]))
  \<close>
  Python's \<open>%\<close> with a positive divisor is \<open>mod\<close> on \<open>int\<close>: the result is in
  \<open>[0, len)\<close>, so both slices have non-negative bounds.
\<close>

definition rotate_arr :: "'a list \<Rightarrow> int \<Rightarrow> 'a list" where
  "rotate_arr array n =
     (let n1 = - n
      in if length array = 0 then array
         else (let n2 = n1 mod int (length array)
               in py_slice array n2 (int (length array)) @ py_slice array 0 n2))"

subsection \<open>halfwidth\<close>

text \<open>
  \<^verbatim>\<open>
  def halfwidth(spec):
      maxpos = argmax(abs(spec[0:(len(spec)+1)/2]))
      x = min(maxpos, len(spec)/2-1-maxpos)
      if x == 0:
          print("halfwidth: Error: Maximum is at f=0")
      return 2**int(log(x)/log(2))
  \<close>
  After the \<open>print\<close> the function goes on to the last line. There numpy's \<open>log(0)\<close> is
  \<open>-inf\<close> and \<open>int(-inf)\<close> raises \<open>OverflowError\<close>; for negative \<open>x\<close>, \<open>log(x)\<close> is \<open>nan\<close>
  and \<open>int(nan)\<close> raises \<open>ValueError\<close>. The model returns the printed lines and the result;
  the quotient \<open>log(x)/log(2)\<close> is taken over the reals.
\<close>

definition halfwidth :: "complex list \<Rightarrow> string list \<times> (py_error + int)" where
  "halfwidth spec =
     (case argmax (map cmod (py_slice spec 0 ((int (length spec) + 1) div 2))) of
        Inl e \<Rightarrow> ([], Inl e)
      | Inr maxpos \<Rightarrow>
          (let x = min (int maxpos) (int (length spec) div 2 - 1 - int maxpos);
               out = (if x = 0 then [''halfwidth: Error: Maximum is at f=0''] else [])
           in (out,
               if x = 0 then Inl OverflowError
               else if x < 0 then Inl ValueError
               else Inr (2 ^ nat (trunc (ln (real_of_int x) / ln 2))))))"

subsection \<open>make_phase_continuous\<close>

text \<open>
  \<^verbatim>\<open>
  def make_phase_continuous(phi):
      for i in range(len(phi)-1):
          dphi = (phi[i+1]-phi[i]) % (2*pi)
          if dphi > pi:
              dphi -= 2*pi
          phi[i+1] = phi[i] + dphi
  \<close>
  The array is updated in place and nothing is returned: the model takes the array and
  returns it as the call leaves it. \<open>mpc_step i\<close> is one iteration of the loop.
\<close>

definition mpc_step :: "nat \<Rightarrow> real list \<Rightarrow> real list" where
  "mpc_step i phi =
     (let dphi = py_fmod (phi ! (i + 1) - phi ! i) (2 * pi);
          dphi = (if dphi > pi then dphi - 2 * pi else dphi)
      in phi[i + 1 := phi ! i + dphi])"

definition make_phase_continuous :: "real list \<Rightarrow> real list" where
  "make_phase_continuous phi = fold mpc_step [0..<length phi - 1] phi"

subsection \<open>unique and NumberOfBitsUsed\<close>

text \<open>
  \<^verbatim>\<open>
  def unique(data):
      copy = 1.*data
      copy.sort()
      return compress(diff(copy) > 0, copy[0:-1])

  def NumberOfBitsUsed(data):
      return log(1.*len(unique(data)))/log(2.)
  \<close>
  \<open>copy.sort()\<close> sorts an array in place. To say which array it changes, the arrays live
  in a store (a list of arrays; a reference is a position in it) and \<open>unique\<close> takes the
  store and the reference \<open>data\<close>. \<open>1.*data\<close> allocates a new array at the end of the
  store. The model returns the store as the call leaves it, and the returned array.
  (\<open>NumberOfBitsUsed\<close> of an input without two distinct values takes \<open>log(0)\<close>, which
  is \<open>-inf\<close> in numpy and outside the model.)
\<close>

type_synonym store = "real list list"

definition unique :: "store \<Rightarrow> nat \<Rightarrow> store \<times> real list" where
  "unique st data =
     (let copy = length st;
          st = st @ [map (\<lambda>v. 1 * v) (st ! data)];
          st = st[copy := sort (st ! copy)]
      in (st, compress (map (\<lambda>d. d > 0) (diff_arr (st ! copy)))
                       (py_slice (st ! copy) 0 (- 1))))"

definition NumberOfBitsUsed :: "store \<Rightarrow> nat \<Rightarrow> store \<times> real" where
  "NumberOfBitsUsed st data =
     (let (st, u) = unique st data
      in (st, ln (1 * real (length u)) / ln 2))"

section \<open>Properties\<close>

subsection \<open>Helper lemmas: slices\<close>

lemma py_bound_nonneg: "0 \<le> a \<Longrightarrow> py_bound xs a = min (nat a) (length xs)"
  by (auto simp add: py_bound_def Let_def min_def)

lemma py_slice_nonneg:
  "0 \<le> a \<Longrightarrow> 0 \<le> b \<Longrightarrow> py_slice xs a b = drop (nat a) (take (nat b) xs)"
  by (simp add: py_slice_def py_bound_nonneg min_def)

subsection \<open>Helper lemmas: rotate\<close>

lemma rotate_arr_rotate:
  "rotate_arr xs n = rotate (nat ((- n) mod int (length xs))) xs"
proof (cases "xs = []")
  case True
  then show ?thesis by (simp add: rotate_arr_def)
next
  case False
  define k where "k = nat ((- n) mod int (length xs))"
  have len: "0 < int (length xs)" using False by simp
  have k0: "0 \<le> (- n) mod int (length xs)" using len by simp
  have klt: "k < length xs"
    using pos_mod_bound [OF len, of "- n"] k0 by (simp add: k_def)
  have "rotate_arr xs n = drop k xs @ take k xs"
    using False k0 by (simp add: rotate_arr_def Let_def py_slice_nonneg k_def)
  also have "\<dots> = rotate k xs"
    using klt by (simp add: rotate_drop_take)
  finally show ?thesis by (simp add: k_def)
qed

lemma length_rotate_arr: "length (rotate_arr xs n) = length xs"
  by (simp add: rotate_arr_rotate)

subsection \<open>Claims about rotate\<close>

text \<open>
  C5. For every sequence \<open>seq\<close> and every integer \<open>n\<close> (negative, zero, or at least the
  length): rotating by \<open>n\<close> and then by \<open>-n\<close> gives \<open>seq\<close> back, rotating by \<open>0\<close> is the
  identity, and rotating the empty sequence returns the empty sequence.
\<close>

theorem rotate_arr_roundtrip:
  "rotate_arr (rotate_arr seq n) (- n) = (seq :: 'a list)
   \<and> rotate_arr seq 0 = seq
   \<and> rotate_arr ([] :: 'a list) n = []"
proof -
  have third: "rotate_arr ([] :: 'a list) n = []"
    by (simp add: rotate_arr_def)
  have second: "rotate_arr seq 0 = seq"
    by (simp add: rotate_arr_rotate)
  have first: "rotate_arr (rotate_arr seq n) (- n) = seq"
  proof (cases "seq = []")
    case True
    then show ?thesis by (simp add: rotate_arr_def)
  next
    case False
    define L where "L = int (length seq)"
    have Lpos: "0 < L" using False by (simp add: L_def)
    define a where "a = nat ((- n) mod L)"
    define b where "b = nat (n mod L)"
    have "int (a + b) = (- n) mod L + n mod L"
      using Lpos by (simp add: a_def b_def)
    then have "int (a + b) mod L = ((- n) mod L + n mod L) mod L" by simp
    also have "\<dots> = (- n + n) mod L" by (simp only: mod_add_eq)
    finally have "int (a + b) mod L = 0" by simp
    then have "int ((a + b) mod length seq) = 0"
      by (simp add: L_def zmod_int)
    then have zero: "(b + a) mod length seq = 0" by (simp add: add.commute)
    have "rotate_arr (rotate_arr seq n) (- n) = rotate b (rotate a seq)"
      by (simp add: rotate_arr_rotate a_def b_def L_def)
    also have "\<dots> = rotate (b + a) seq" by (simp add: rotate_rotate)
    also have "\<dots> = rotate ((b + a) mod length seq) seq" by (rule rotate_conv_mod)
    also have "\<dots> = seq" by (simp add: zero)
    finally show ?thesis .
  qed
  from first second third show ?thesis by simp
qed

subsection \<open>Helper lemmas: make_phase_continuous\<close>

lemma py_fmod_range:
  assumes "0 < b"
  shows "0 \<le> py_fmod a b" and "py_fmod a b < b"
proof -
  define q where "q = a / b"
  have a: "a = b * q" using assms by (simp add: q_def)
  have "of_int \<lfloor>q\<rfloor> \<le> q" "q < of_int \<lfloor>q\<rfloor> + 1" by linarith+
  then have "b * of_int \<lfloor>q\<rfloor> \<le> b * q" "b * q < b * (of_int \<lfloor>q\<rfloor> + 1)"
    using assms by simp_all
  then show "0 \<le> py_fmod a b" "py_fmod a b < b"
    unfolding py_fmod_def q_def [symmetric] a [symmetric]
    by (simp_all add: algebra_simps)
qed

lemma py_fmod_small: "0 \<le> a \<Longrightarrow> a < b \<Longrightarrow> py_fmod a b = a"
proof -
  assume a: "0 \<le> a" "a < b"
  then have "\<lfloor>a / b\<rfloor> = 0" by (simp add: floor_eq_iff)
  then show ?thesis by (simp add: py_fmod_def)
qed

lemma pi_ge_three: "3 \<le> pi"
proof -
  have "sin (pi / 6) \<le> pi / 6" by (rule sin_x_le_x) simp
  then show ?thesis by (simp add: sin_30)
qed

lemma length_mpc_step: "length (mpc_step i phi) = length phi"
  by (simp add: mpc_step_def Let_def)

lemma length_mpc_fold: "length (fold mpc_step is phi) = length phi"
  by (induction "is" arbitrary: phi) (simp_all add: length_mpc_step)

lemma mpc_step_nth_other: "j \<noteq> i + 1 \<Longrightarrow> mpc_step i phi ! j = phi ! j"
  by (simp add: mpc_step_def Let_def)

lemma mpc_step_diff:
  assumes "i + 1 < length phi"
  shows "- pi < mpc_step i phi ! (i + 1) - mpc_step i phi ! i"
    and "mpc_step i phi ! (i + 1) - mpc_step i phi ! i \<le> pi"
proof -
  define d where "d = py_fmod (phi ! (i + 1) - phi ! i) (2 * pi)"
  have d0: "0 \<le> d" and d1: "d < 2 * pi"
    unfolding d_def by (rule py_fmod_range, simp)+
  have eq: "mpc_step i phi ! (i + 1) - mpc_step i phi ! i
            = (if d > pi then d - 2 * pi else d)"
    using assms by (simp add: mpc_step_def Let_def d_def)
  show "- pi < mpc_step i phi ! (i + 1) - mpc_step i phi ! i"
    unfolding eq using d0 d1 pi_gt_zero by (simp split: if_splits)
  show "mpc_step i phi ! (i + 1) - mpc_step i phi ! i \<le> pi"
    unfolding eq using d0 d1 by (simp split: if_splits)
qed

lemma mpc_prefix_diffs:
  "k < length phi \<Longrightarrow> i < k \<Longrightarrow>
     - pi < fold mpc_step [0..<k] phi ! (i + 1) - fold mpc_step [0..<k] phi ! i
     \<and> fold mpc_step [0..<k] phi ! (i + 1) - fold mpc_step [0..<k] phi ! i \<le> pi"
proof (induction k arbitrary: i)
  case 0
  then show ?case by simp
next
  case (Suc k)
  define r where "r = fold mpc_step [0..<k] phi"
  have lr: "length r = length phi" by (simp add: r_def length_mpc_fold)
  have unfold: "fold mpc_step [0..<Suc k] phi = mpc_step k r"
    by (simp add: r_def)
  show ?case
  proof (cases "i = k")
    case True
    have "k + 1 < length r" using Suc.prems lr by simp
    from mpc_step_diff [OF this] show ?thesis unfolding unfold True by simp
  next
    case False
    then have ik: "i < k" using Suc.prems by simp
    have "- pi < r ! (i + 1) - r ! i \<and> r ! (i + 1) - r ! i \<le> pi"
      unfolding r_def using Suc.prems ik by (intro Suc.IH) simp_all
    moreover have "mpc_step k r ! (i + 1) = r ! (i + 1)" "mpc_step k r ! i = r ! i"
      using ik by (simp_all add: mpc_step_nth_other)
    ultimately show ?thesis unfolding unfold by simp
  qed
qed

lemma mpc_fold_nth0: "fold mpc_step is phi ! 0 = phi ! 0"
  by (induction "is" arbitrary: phi) (simp_all add: mpc_step_nth_other)

lemma mpc_example: "make_phase_continuous [0, 3, 6] = [0, 3, 6]"
proof -
  have three: "py_fmod 3 (2 * pi) = 3"
    using pi_ge_three by (intro py_fmod_small) simp_all
  have s0: "mpc_step 0 [0, 3, 6] = [0, 3, 6]"
    using pi_ge_three by (simp add: mpc_step_def Let_def three)
  have s1: "mpc_step (Suc 0) [0, 3, 6] = [0, 3, 6]"
    using pi_ge_three by (simp add: mpc_step_def Let_def three)
  have "[0..<length [0, 3, 6 :: real] - 1] = [0, 1]"
    by (simp add: upt_rec)
  then show ?thesis
    by (simp add: make_phase_continuous_def s0 s1)
qed

subsection \<open>Claims about make_phase_continuous\<close>

text \<open>
  C8. For every real sequence \<open>phi\<close> of length at least 2, after
  \<open>make_phase_continuous(phi)\<close> every consecutive difference \<open>phi[i+1] - phi[i]\<close> of the
  array lies in the interval \<open>(-pi, pi]\<close>. In particular this holds for \<open>[0, 3.0, 6.0]\<close>,
  which the call leaves as it is: its steps of \<open>3.0\<close> are already below \<open>pi\<close>.
\<close>

theorem make_phase_continuous_diffs:
  "2 \<le> length phi \<Longrightarrow>
     (\<forall>i. i + 1 < length phi \<longrightarrow>
        - pi < make_phase_continuous phi ! (i + 1) - make_phase_continuous phi ! i
        \<and> make_phase_continuous phi ! (i + 1) - make_phase_continuous phi ! i \<le> pi)
     \<and> length (make_phase_continuous phi) = length phi
     \<and> make_phase_continuous [0, 3, 6] = [0, 3, 6]"
proof -
  assume len: "2 \<le> length phi"
  have diffs: "- pi < make_phase_continuous phi ! (i + 1) - make_phase_continuous phi ! i
       \<and> make_phase_continuous phi ! (i + 1) - make_phase_continuous phi ! i \<le> pi"
    if "i + 1 < length phi" for i
  proof -
    have "length phi - 1 < length phi" using len by simp
    moreover have "i < length phi - 1" using that by simp
    ultimately show ?thesis
      unfolding make_phase_continuous_def by (rule mpc_prefix_diffs)
  qed
  have "length (make_phase_continuous phi) = length phi"
    by (simp add: make_phase_continuous_def length_mpc_fold)
  with diffs mpc_example show ?thesis by blast
qed

theorem make_phase_continuous_diffs_witness:
  "- pi < make_phase_continuous [0, 7, 1] ! 2 - make_phase_continuous [0, 7, 1] ! 1
   \<and> make_phase_continuous [0, 7, 1] ! 2 - make_phase_continuous [0, 7, 1] ! 1 \<le> pi"
proof -
  have "2 \<le> length [0, 7, 1 :: real]" by simp
  from make_phase_continuous_diffs [OF this] have
    "\<forall>i. i + 1 < length [0, 7, 1 :: real] \<longrightarrow>
        - pi < make_phase_continuous [0, 7, 1] ! (i + 1) - make_phase_continuous [0, 7, 1] ! i
        \<and> make_phase_continuous [0, 7, 1] ! (i + 1) - make_phase_continuous [0, 7, 1] ! i \<le> pi"
    by blast
  from this [rule_format, of 1] show ?thesis by (simp add: numeral_2_eq_2)
qed

text \<open>
  C10. For every real sequence \<open>phi\<close>, \<open>make_phase_continuous(phi)\<close> writes only elements at
  indices 1 to \<open>len(phi) - 1\<close>: the array keeps its length and its element \<open>phi[0]\<close> (the
  one-element prefix of the array is the same before and after the call).
\<close>

theorem make_phase_continuous_first_unchanged:
  "length (make_phase_continuous phi) = length phi
   \<and> take 1 (make_phase_continuous phi) = take 1 phi"
proof -
  have l: "length (make_phase_continuous phi) = length phi"
    by (simp add: make_phase_continuous_def length_mpc_fold)
  have "make_phase_continuous phi ! 0 = phi ! 0"
    by (simp add: make_phase_continuous_def mpc_fold_nth0)
  with l show ?thesis by (cases phi; cases "make_phase_continuous phi") simp_all
qed

subsection \<open>Helper lemmas: float64 rounding\<close>






lemma fl64_zero [simp]: "fl64 0 = 0"
  by (simp add: fl64_def)












subsection \<open>Helper lemmas: the linear resampling branch\<close>

lemma fold_update_prefix:
  "n \<le> length r0 \<Longrightarrow>
     fold (\<lambda>i r. r[i := f i]) [0..<n] r0 = map f [0..<n] @ drop n r0"
proof (induction n)
  case 0
  then show ?case by simp
next
  case (Suc n)
  then have n: "n < length r0" by simp
  have "fold (\<lambda>i r. r[i := f i]) [0..<Suc n] r0
        = (map f [0..<n] @ drop n r0)[n := f n]"
    using Suc by simp
  also have "\<dots> = map f [0..<n] @ (drop n r0)[0 := f n]"
    by (simp add: list_update_append)
  also have "drop n r0 = r0 ! n # drop (Suc n) r0"
    using n by (simp add: Cons_nth_drop_Suc)
  finally show ?case by simp
qed

lemma fold_update_all:
  "fold (\<lambda>i r. r[i := f i]) [0..<n] (replicate n z) = map f [0..<n]"
  using fold_update_prefix [of n "replicate n z" f] by simp




text \<open>The array \<open>index\<close> of the linear branch after line 197.\<close>

lemma lin_index_nth:
  assumes N: "0 < N" and i: "i \<le> nat N"
  shows "(map (\<lambda>v. trunc (fl64 (v * dn))) (arange (N + 1)))
           [length (map (\<lambda>v. trunc (fl64 (v * dn))) (arange (N + 1))) - 1 := int L] ! i
         = (if i = nat N then int L else trunc (fl64 (real i * dn)))"
proof -
  let ?idx = "map (\<lambda>v. trunc (fl64 (v * dn))) (arange (N + 1))"
  have len: "length ?idx = nat N + 1" using N by (simp add: arange_def nat_add_distrib)
  show ?thesis
  proof (cases "i = nat N")
    case True
    then show ?thesis using len by simp
  next
    case False
    then have "i < nat N" using i by simp
    then have "?idx[length ?idx - 1 := int L] ! i = ?idx ! i"
      using len by simp
    also have "\<dots> = trunc (fl64 (real i * dn))"
      using \<open>i < nat N\<close> N by (simp add: arange_def nat_add_distrib nth_append)
    finally show ?thesis using False by simp
  qed
qed

lemma lin_average_eq:
  assumes N: "0 < N"
  shows "lin_average x N =
    Inr (map (\<lambda>i. average (py_slice x
                 (if i = nat N then int (length x)
                  else trunc (fl64 (real i * fl64 (fl64 (1 * real (length x)) / fl64 (real_of_int N)))))
                 (if i + 1 = nat N then int (length x)
                  else trunc (fl64 (real (i + 1)
                                      * fl64 (fl64 (1 * real (length x)) / fl64 (real_of_int N)))))))
             [0..<nat N])"
proof -
  let ?dn = "fl64 (fl64 (1 * real (length x)) / fl64 (real_of_int N))"
  let ?idx0 = "map (\<lambda>v. trunc (fl64 (v * ?dn))) (arange (N + 1))"
  let ?idx = "?idx0[length ?idx0 - 1 := int (length x)]"
  let ?f = "\<lambda>i. average (py_slice x (?idx ! i) (?idx ! (i + 1)))"
  let ?b = "\<lambda>i. if i = nat N then int (length x) else trunc (fl64 (real i * ?dn))"
  have "lin_average x N = Inr (fold (\<lambda>i r. r[i := ?f i]) [0..<nat N] (replicate (nat N) 0))"
    using N by (simp add: lin_average_def zeros_def bind_err_def Let_def)
  also have "fold (\<lambda>i r. r[i := ?f i]) [0..<nat N] (replicate (nat N) 0) = map ?f [0..<nat N]"
    by (rule fold_update_all)
  also have "map ?f [0..<nat N]
     = map (\<lambda>i. average (py_slice x (?b i) (?b (i + 1)))) [0..<nat N]"
  proof (rule map_cong [OF refl])
    fix i assume "i \<in> set [0..<nat N]"
    then have i: "i \<le> nat N" "i + 1 \<le> nat N" by simp_all
    show "?f i = average (py_slice x (?b i) (?b (i + 1)))"
      by (simp only: lin_index_nth [OF N i(1)] lin_index_nth [OF N i(2)])
  qed
  finally show ?thesis .
qed

lemma lin_average_length: "0 < N \<Longrightarrow> \<exists>r. lin_average y N = Inr r \<and> length r = nat N"
  by (simp add: lin_average_eq)











subsection \<open>Claims about resamp and resample\<close>




text \<open>
  C9. For every source sequence whose length is at most the target length \<open>N\<close>, \<open>resamp\<close>
  returns the source unchanged, and \<open>resample\<close> on paired inputs of equal length returns
  the pair unchanged (and prints nothing), for every value of the mode argument (and
  whatever the library's \<open>log\<close> and \<open>exp\<close> are).
\<close>

theorem resample_identity:
  "(int (length x) \<le> N \<longrightarrow> resamp m x N type = Inr x)
   \<and> (length x = length y \<and> int (length y) \<le> N \<longrightarrow> resample m x y N type = ([], Inr [x, y]))"
  by (simp add: resamp_def resample_def)

theorem resample_identity_witness:
  "resamp \<lparr>np_log = ln, np_exp = exp\<rparr> [1, 2] 2 ''cubic'' = Inr [1, 2]
   \<and> resample \<lparr>np_log = ln, np_exp = exp\<rparr> [1, 2] [3, 4] 5 ''cubic'' = ([], Inr [[1, 2], [3, 4]])"
  using resample_identity [of "[1, 2]" 2 "\<lparr>np_log = ln, np_exp = exp\<rparr>" "''cubic''" "[3, 4]"]
        resample_identity [of "[1, 2]" 5 "\<lparr>np_log = ln, np_exp = exp\<rparr>" "''cubic''" "[3, 4]"]
  by simp

text \<open>
  C7, as the code has it. When \<open>len(x) \<noteq> len(y)\<close>, \<open>resample\<close> prints
  \<open>x and y need to be equally long\<close> and returns the empty list \<open>[]\<close>, for every \<open>N\<close> and
  mode: a sentinel, not an exception. For inputs of equal length at most \<open>N\<close> every mode
  value, recognised or not, returns \<open>[x, y]\<close>. For inputs of equal length above \<open>N\<close>, mode
  \<open>'lin'\<close> with \<open>N \<ge> 1\<close> returns two arrays of length \<open>N\<close>, and a mode other than \<open>'lin'\<close>
  and \<open>'log'\<close> prints \<open>type unknown!\<close>.
\<close>

theorem resample_error_policy:
  "(length x \<noteq> length y \<longrightarrow>
      resample m x y N type = ([''x and y need to be equally long''], Inr []))
   \<and> (length x = length y \<and> int (length y) \<le> N \<longrightarrow>
      resample m x y N type = ([], Inr [x, y]))
   \<and> (length x = length y \<and> 0 < N \<and> N < int (length y) \<longrightarrow>
      (\<exists>rx ry. resample m x y N ''lin'' = ([], Inr [rx, ry])
          \<and> length rx = nat N \<and> length ry = nat N))
   \<and> (length x = length y \<and> N < int (length y) \<and> type \<noteq> ''lin'' \<and> type \<noteq> ''log'' \<longrightarrow>
      fst (resample m x y N type) = [''type unknown!''])"
proof -
  have lin: "\<exists>rx ry. resample m x y N ''lin'' = ([], Inr [rx, ry])
          \<and> length rx = nat N \<and> length ry = nat N"
    if eq: "length x = length y" and N: "0 < N" and lt: "N < int (length y)"
  proof -
    obtain ry where ry: "lin_average y N = Inr ry" "length ry = nat N"
      using lin_average_length [OF N] by blast
    have "0 < int (length y)" using N lt by linarith
    then have ne: "0 < length x" using eq by simp
    have "py_index x (- 1) = Inr (x ! (length x - 1))"
      using ne by (simp add: py_index_def Let_def nat_diff_distrib' of_nat_diff)
    moreover have "py_index x 0 = Inr (x ! 0)"
      using ne by (simp add: py_index_def)
    ultimately show ?thesis
      using eq lt ry
      by (simp add: resample_def resample_lin_def bind_err_def Let_def arange_def)
  qed
  show ?thesis using lin by (simp add: resample_def)
qed

theorem resample_error_policy_witness:
  "resample \<lparr>np_log = ln, np_exp = exp\<rparr> [1] [1, 2] 1 ''lin''
     = ([''x and y need to be equally long''], Inr [])
   \<and> resample \<lparr>np_log = ln, np_exp = exp\<rparr> [1] [2] 1 ''cubic'' = ([], Inr [[1], [2]])
   \<and> (\<exists>rx ry. resample \<lparr>np_log = ln, np_exp = exp\<rparr> [1, 2] [3, 4] 1 ''lin'' = ([], Inr [rx, ry])
          \<and> length rx = 1 \<and> length ry = 1)
   \<and> fst (resample \<lparr>np_log = ln, np_exp = exp\<rparr> [1, 2] [3, 4] 1 ''cubic'') = [''type unknown!'']"
  using resample_error_policy [of "[1]" "[1, 2]" "\<lparr>np_log = ln, np_exp = exp\<rparr>" 1 "''lin''"]
        resample_error_policy [of "[1]" "[2]" "\<lparr>np_log = ln, np_exp = exp\<rparr>" 1 "''cubic''"]
        resample_error_policy [of "[1, 2]" "[3, 4]" "\<lparr>np_log = ln, np_exp = exp\<rparr>" 1 "''cubic''"]
  by simp

text \<open>
  C7 as stated fails on the code: mismatched lengths do not fail but return \<open>[]\<close>; an
  unrecognised mode does not fail when \<open>len(y) \<le> N\<close>; and equal lengths with mode \<open>'lin'\<close>
  still raise \<open>ZeroDivisionError\<close> for \<open>N = 0\<close>, a third error condition.
\<close>

theorem resample_mismatch_counterexample:
  "\<not> (\<exists>e. snd (resample \<lparr>np_log = ln, np_exp = exp\<rparr> [1] [1, 2] 1 ''lin'') = Inl e)
   \<and> snd (resample \<lparr>np_log = ln, np_exp = exp\<rparr> [1] [1, 2] 1 ''lin'') = Inr []
   \<and> snd (resample \<lparr>np_log = ln, np_exp = exp\<rparr> [1] [2] 1 ''cubic'') = Inr [[1], [2]]
   \<and> snd (resample \<lparr>np_log = ln, np_exp = exp\<rparr> [1, 2] [3, 4] 0 ''lin'') = Inl ZeroDivisionError"
  by (simp add: resample_def resample_lin_def lin_average_def zeros_def bind_err_def
                py_index_def arange_def)


subsection \<open>Helper lemmas: unique\<close>

text \<open>The array \<open>unique\<close> returns, computed from the sorted copy.\<close>

lemma py_slice_butlast: "py_slice c 0 (- 1) = butlast c"
proof -
  have "nat (max 0 (int (length c) - 1)) = length c - 1" by linarith
  then show ?thesis
    by (simp add: py_slice_def py_bound_def butlast_conv_take)
qed

lemma unique_store:
  "unique st data =
     (st @ [sort (st ! data)],
      compress (map (\<lambda>d. d > 0) (diff_arr (sort (st ! data)))) (butlast (sort (st ! data))))"
  by (simp add: unique_def Let_def py_slice_butlast)

lemma compress_Cons:
  "compress (b # bs) (a # as) = (if b then [a] else []) @ compress bs as"
  by (simp add: compress_def)

lemma keep_step:
  "compress (map (\<lambda>d. d > 0) (diff_arr (a # b # cs))) (butlast (a # b # cs))
   = (if a < b then [a] else [])
     @ compress (map (\<lambda>d. d > 0) (diff_arr (b # cs))) (butlast (b # cs))"
  by (simp add: compress_Cons)

lemma keep_single:
  "compress (map (\<lambda>d. d > 0) (diff_arr [a])) (butlast [a]) = []"
  by (simp add: compress_def)

lemma keep_set:
  "sorted c \<Longrightarrow> c \<noteq> [] \<Longrightarrow>
     set (compress (map (\<lambda>d. d > 0) (diff_arr c)) (butlast c)) = set c - {last c}"
proof (induction c rule: diff_arr.induct)
  case (1 a b cs)
  have le: "a \<le> b" "b \<le> last (b # cs)" using "1.prems" by auto
  have IH: "set (compress (map (\<lambda>d. d > 0) (diff_arr (b # cs))) (butlast (b # cs)))
            = set (b # cs) - {last (b # cs)}"
    using "1.prems" by (intro "1.IH") simp_all
  define K where "K = set (compress (map (\<lambda>d. d > 0) (diff_arr (b # cs))) (butlast (b # cs)))"
  define S where "S = set (b # cs)"
  define L where "L = last (b # cs)"
  have K: "K = S - {L}" using IH by (simp only: K_def S_def L_def)
  have bS: "b \<in> S" by (simp add: S_def)
  have bL: "b \<le> L" using le by (simp add: L_def)
  have lhs: "set (compress (map (\<lambda>d. d > 0) (diff_arr (a # b # cs))) (butlast (a # b # cs)))
             = (if a < b then insert a K else K)"
    unfolding keep_step K_def by simp
  have rhs: "set (a # b # cs) - {last (a # b # cs)} = insert a S - {L}"
    by (simp add: S_def L_def)
  have "(if a < b then insert a K else K) = insert a S - {L}"
  proof (cases "a < b")
    case True
    then have "a \<noteq> L" using bL by simp
    then show ?thesis using True K by auto
  next
    case False
    then have "a = b" using le by simp
    then show ?thesis using False K bS by auto
  qed
  then show ?case by (simp only: lhs rhs)
next
  case 3
  then show ?case by simp
next
  case (2 v)
  then show ?case by (simp add: compress_def)
qed

lemma keep_sorted:
  "sorted c \<Longrightarrow>
     sorted (compress (map (\<lambda>d. d > 0) (diff_arr c)) (butlast c))
     \<and> distinct (compress (map (\<lambda>d. d > 0) (diff_arr c)) (butlast c))"
proof (induction c rule: diff_arr.induct)
  case (1 a b cs)
  let ?k = "compress (map (\<lambda>d. d > 0) (diff_arr (b # cs))) (butlast (b # cs))"
  have IH: "sorted ?k \<and> distinct ?k" using "1.prems" by (intro "1.IH") simp
  have sub: "set ?k \<subseteq> set (b # cs)"
    using keep_set [of "b # cs"] "1.prems" by auto
  have "\<forall>v \<in> set (b # cs). b \<le> v" using "1.prems" by auto
  with sub have ge: "\<forall>v \<in> set ?k. b \<le> v" by blast
  show ?case
    unfolding keep_step using IH ge by (auto split: if_splits)
next
  case 3
  then show ?case by (simp add: compress_def)
next
  case (2 v)
  then show ?case by (simp add: compress_def)
qed

lemma keep_nth:
  "compress (map (\<lambda>d. d > 0) (diff_arr c)) (butlast c)
   = map ((!) c) (filter (\<lambda>i. c ! i < c ! (i + 1)) [0..<length c - 1])"
proof (induction c rule: diff_arr.induct)
  case (1 a b cs)
  let ?c = "a # b # cs" and ?c' = "b # cs"
  have upt: "[0..<length ?c - 1] = 0 # map Suc [0..<length ?c' - 1]"
    by (simp add: upt_conv_Cons map_Suc_upt del: upt_Suc)
  have "map ((!) ?c) (filter (\<lambda>i. ?c ! i < ?c ! (i + 1)) [0..<length ?c - 1])
      = (if a < b then [a] else [])
        @ map ((!) ?c) (filter (\<lambda>i. ?c ! i < ?c ! (i + 1)) (map Suc [0..<length ?c' - 1]))"
    unfolding upt by simp
  also have "map ((!) ?c) (filter (\<lambda>i. ?c ! i < ?c ! (i + 1)) (map Suc [0..<length ?c' - 1]))
      = map ((!) ?c') (filter (\<lambda>i. ?c' ! i < ?c' ! (i + 1)) [0..<length ?c' - 1])"
    by (simp add: filter_map comp_def)
  finally show ?case unfolding keep_step using "1.IH" by simp
next
  case 3
  then show ?case by (simp add: compress_def)
next
  case (2 v)
  then show ?case by (simp add: compress_def)
qed

lemma sorted_le_last:
  assumes "sorted xs" and "v \<in> set xs"
  shows "v \<le> last (xs :: real list)"
proof -
  from assms(2) obtain i where i: "i < length xs" "xs ! i = v"
    by (auto simp: in_set_conv_nth)
  then have ne: "xs \<noteq> []" by auto
  have "xs ! i \<le> xs ! (length xs - 1)"
    using assms(1) i by (intro sorted_nth_mono) simp_all
  then show ?thesis using i ne by (simp add: last_conv_nth)
qed

lemma last_sort_Max: "d \<noteq> [] \<Longrightarrow> last (sort d) = Max (set (d :: real list))"
proof -
  assume ne: "d \<noteq> []"
  then have ne': "sort d \<noteq> []" by (metis length_sort length_0_conv)
  have "last (sort d) \<in> set (sort d)" using ne' by (rule last_in_set)
  then have mem: "last (sort d) \<in> set d" by simp
  have "v \<le> last (sort d)" if "v \<in> set d" for v
    using that by (intro sorted_le_last) simp_all
  with mem show ?thesis
    by (intro Max_eqI [symmetric]) simp_all
qed

lemma keep_sorted_list_of_set:
  "compress (map (\<lambda>d. d > 0) (diff_arr (sort d))) (butlast (sort d))
   = sorted_list_of_set (set d - {Max (set d)})"
proof (cases "d = []")
  case True
  then show ?thesis by (simp add: compress_def)
next
  case False
  let ?k = "compress (map (\<lambda>d. d > 0) (diff_arr (sort d))) (butlast (sort d))"
  have ne': "sort d \<noteq> []" using False by (metis length_sort length_0_conv)
  have "set ?k = set (sort d) - {last (sort d)}"
    using ne' by (intro keep_set) simp_all
  then have set: "set ?k = set d - {Max (set d)}"
    using False by (simp add: last_sort_Max)
  have "sorted ?k \<and> distinct ?k" by (intro keep_sorted) simp
  then show ?thesis
    using set by (intro sorted_distinct_set_unique) simp_all
qed

subsection \<open>Claims about unique and NumberOfBitsUsed\<close>

text \<open>
  C3. \<open>unique\<close> applied to \<open>[1,1,2,2,2,3]\<close> returns exactly \<open>[1,2]\<close>. In general \<open>unique\<close>
  sorts a copy of its input and keeps each element of the sorted copy whose successor is
  strictly larger, which drops the whole final run: the result is the ascending list of
  the distinct values of the input without its maximum. The input array, and every other
  array that existed before the call, is left as it was.
\<close>

theorem unique_drops_last_run:
  "data < length st \<Longrightarrow>
     take (length st) (fst (unique st data)) = st
     \<and> fst (unique st data) ! data = st ! data
     \<and> snd (unique st data)
         = map ((!) (sort (st ! data)))
               (filter (\<lambda>i. sort (st ! data) ! i < sort (st ! data) ! (i + 1))
                       [0..<length (st ! data) - 1])
     \<and> snd (unique st data) = sorted_list_of_set (set (st ! data) - {Max (set (st ! data))})
     \<and> snd (unique [[1, 1, 2, 2, 2, 3]] 0) = [1, 2]"
proof -
  assume d: "data < length st"
  have frame: "take (length st) (fst (unique st data)) = st"
    by (simp add: unique_store)
  have same: "fst (unique st data) ! data = st ! data"
    using d by (simp add: unique_store nth_append)
  have nth: "snd (unique st data)
         = map ((!) (sort (st ! data)))
               (filter (\<lambda>i. sort (st ! data) ! i < sort (st ! data) ! (i + 1))
                       [0..<length (st ! data) - 1])"
    using keep_nth [of "sort (st ! data)"] by (simp add: unique_store)
  have levels: "snd (unique st data)
      = sorted_list_of_set (set (st ! data) - {Max (set (st ! data))})"
    by (simp add: unique_store keep_sorted_list_of_set)
  have "sort [1, 1, 2, 2, 2, 3 :: real] = [1, 1, 2, 2, 2, 3]" by simp
  then have example: "snd (unique [[1, 1, 2, 2, 2, 3]] 0) = [1, 2]"
    by (simp add: unique_store compress_def)
  from frame same nth levels example show ?thesis by simp
qed

theorem unique_drops_last_run_witness:
  "fst (unique [[3, 1, 3, 2]] 0) ! 0 = [3, 1, 3, 2]
   \<and> snd (unique [[3, 1, 3, 2]] 0) = [1, 2]"
  using unique_drops_last_run [of 0 "[[3, 1, 3, 2]]"] by simp

text \<open>
  C2 says that an input with exactly 4 distinct values gives 2.0. The code gives
  \<open>log(3)/log(2)\<close>: on \<open>[0, 1, 2, 3]\<close>, \<open>unique\<close> returns the three values \<open>[0, 1, 2]\<close>,
  without the largest one.
\<close>

theorem NumberOfBitsUsed_four_levels:
  "snd (NumberOfBitsUsed [[0, 1, 2, 3]] 0) = ln 3 / ln 2
   \<and> snd (NumberOfBitsUsed [[0, 1, 2, 3]] 0) \<noteq> 2
   \<and> snd (unique [[0, 1, 2, 3]] 0) = [0, 1, 2]"
proof -
  have "sort [0, 1, 2, 3 :: real] = [0, 1, 2, 3]" by simp
  then have u: "snd (unique [[0, 1, 2, 3]] 0) = [0, 1, 2]"
    by (simp add: unique_store compress_def)
  then have n: "snd (NumberOfBitsUsed [[0, 1, 2, 3]] 0) = ln 3 / ln 2"
    by (simp add: NumberOfBitsUsed_def split_beta)
  have "ln (3::real) < ln 4" by simp
  also have "ln (4::real) = ln (2 ^ 2)" by simp
  also have "\<dots> = 2 * ln 2" using ln_realpow [of 2 2] by simp
  finally have "ln (3::real) / ln 2 < 2" by (simp add: field_simps)
  with u n show ?thesis by simp
qed


subsection \<open>Helper lemmas: halfwidth\<close>

lemma argmax_from_spec:
  "i = length pre \<Longrightarrow> best < i \<Longrightarrow> m = pre ! best \<Longrightarrow>
   (\<forall>j<i. pre ! j \<le> m) \<Longrightarrow> (\<forall>j<best. pre ! j < m) \<Longrightarrow>
     argmax_from i best m vs < length (pre @ vs)
     \<and> (\<forall>j<length (pre @ vs). (pre @ vs) ! j \<le> (pre @ vs) ! argmax_from i best m vs)
     \<and> (\<forall>j<argmax_from i best m vs. (pre @ vs) ! j < (pre @ vs) ! argmax_from i best m vs)"
proof (induction vs arbitrary: i best m pre)
  case Nil
  then show ?case by simp
next
  case (Cons v vs)
  have app: "pre @ v # vs = (pre @ [v]) @ vs" by simp
  show ?case
  proof (cases "m < v")
    case True
    have "argmax_from (Suc i) i v vs < length ((pre @ [v]) @ vs)
     \<and> (\<forall>j<length ((pre @ [v]) @ vs).
            ((pre @ [v]) @ vs) ! j \<le> ((pre @ [v]) @ vs) ! argmax_from (Suc i) i v vs)
     \<and> (\<forall>j<argmax_from (Suc i) i v vs.
            ((pre @ [v]) @ vs) ! j < ((pre @ [v]) @ vs) ! argmax_from (Suc i) i v vs)"
    proof (rule Cons.IH)
      show "Suc i = length (pre @ [v])" using Cons.prems by simp
      show "i < Suc i" by simp
      show "v = (pre @ [v]) ! i" using Cons.prems by simp
      show "\<forall>j<Suc i. (pre @ [v]) ! j \<le> v"
        using Cons.prems True by (auto simp: nth_append less_Suc_eq)
      show "\<forall>j<i. (pre @ [v]) ! j < v"
        using Cons.prems True by (auto simp: nth_append)
    qed
    moreover have "argmax_from i best m (v # vs) = argmax_from (Suc i) i v vs"
      using True by simp
    ultimately show ?thesis unfolding app by presburger
  next
    case False
    have "argmax_from (Suc i) best m vs < length ((pre @ [v]) @ vs)
     \<and> (\<forall>j<length ((pre @ [v]) @ vs).
            ((pre @ [v]) @ vs) ! j \<le> ((pre @ [v]) @ vs) ! argmax_from (Suc i) best m vs)
     \<and> (\<forall>j<argmax_from (Suc i) best m vs.
            ((pre @ [v]) @ vs) ! j < ((pre @ [v]) @ vs) ! argmax_from (Suc i) best m vs)"
    proof (rule Cons.IH)
      show "Suc i = length (pre @ [v])" using Cons.prems by simp
      show "best < Suc i" using Cons.prems by simp
      show "m = (pre @ [v]) ! best" using Cons.prems by (simp add: nth_append)
      show "\<forall>j<Suc i. (pre @ [v]) ! j \<le> m"
        using Cons.prems False by (auto simp: nth_append less_Suc_eq)
      show "\<forall>j<best. (pre @ [v]) ! j < m"
        using Cons.prems by (auto simp: nth_append)
    qed
    moreover have "argmax_from i best m (v # vs) = argmax_from (Suc i) best m vs"
      using False by simp
    ultimately show ?thesis unfolding app by presburger
  qed
qed

lemma argmax_spec:
  assumes "a \<noteq> []"
  shows "\<exists>p. argmax a = Inr p \<and> p < length a
           \<and> (\<forall>j<length a. a ! j \<le> a ! p) \<and> (\<forall>j<p. a ! j < a ! p)"
proof -
  from assms obtain v vs where a: "a = v # vs" by (cases a) auto
  have "argmax_from 1 0 v vs < length ([v] @ vs)
     \<and> (\<forall>j<length ([v] @ vs). ([v] @ vs) ! j \<le> ([v] @ vs) ! argmax_from 1 0 v vs)
     \<and> (\<forall>j<argmax_from 1 0 v vs. ([v] @ vs) ! j < ([v] @ vs) ! argmax_from 1 0 v vs)"
    by (rule argmax_from_spec) simp_all
  then show ?thesis by (simp add: a argmax_def)
qed

lemma pow2_floor_log:
  assumes "1 \<le> (x::int)"
  defines "k \<equiv> nat (trunc (ln (real_of_int x) / ln 2))"
  shows "2 ^ k \<le> x" and "x < 2 ^ (k + 1)"
proof -
  define r where "r = ln (real_of_int x) / ln 2"
  have x0: "0 < real_of_int x" using assms by simp
  have r0: "0 \<le> r" using assms by (simp add: r_def)
  have k: "k = nat \<lfloor>r\<rfloor>" using r0 by (simp add: k_def r_def trunc_def)
  have fl: "0 \<le> \<lfloor>r\<rfloor>" using r0 by simp
  have lo: "real k \<le> r" using fl unfolding k by linarith
  have hi: "r < real k + 1" using fl unfolding k by linarith
  have xr: "real_of_int x = 2 powr r"
    using x0 by (simp add: r_def powr_def)
  have "(2::real) ^ k = 2 powr real k" by (simp add: powr_realpow)
  also have "\<dots> \<le> 2 powr r" using lo by simp
  finally have "(2::real) ^ k \<le> real_of_int x" by (simp add: xr)
  then have "real_of_int (2 ^ k) \<le> real_of_int x" by simp
  then show "2 ^ k \<le> x" by (simp only: of_int_le_iff)
  have "2 powr r < 2 powr (real k + 1)" using hi by simp
  also have "\<dots> = 2 powr real (k + 1)" by (simp add: add.commute)
  also have "\<dots> = (2::real) ^ (k + 1)" by (simp only: powr_realpow [OF zero_less_numeral])
  finally have "real_of_int x < real_of_int (2 ^ (k + 1))" by (simp add: xr)
  then show "x < 2 ^ (k + 1)" by (simp only: of_int_less_iff)
qed

lemma half_slice:
  "py_slice spec 0 ((int (length spec) + 1) div 2) = take ((length spec + 1) div 2) spec"
proof -
  have "(int (length spec) + 1) div 2 = int ((length spec + 1) div 2)" by simp
  moreover have "spec \<noteq> [] \<Longrightarrow> (length spec + 1) div 2 \<le> length spec"
    by (cases spec) simp_all
  ultimately show ?thesis by (auto simp add: py_slice_def py_bound_def min_def)
qed

subsection \<open>Claims about halfwidth\<close>

text \<open>
  C6, as the code has it. For every non-empty spectrum \<open>spec\<close> of length \<open>N\<close>,
  \<open>halfwidth(spec)\<close> locates the first position \<open>maxpos\<close> of the largest magnitude within
  \<open>spec[0:(N+1)/2]\<close> and sets \<open>x = min(maxpos, N/2 - 1 - maxpos)\<close>. When \<open>x \<ge> 1\<close> it
  returns the largest power of two less than or equal to \<open>x\<close> and prints nothing. When
  \<open>x == 0\<close> it prints \<open>halfwidth: Error: Maximum is at f=0\<close> and returns no value (the last
  line raises). When \<open>x < 0\<close> it returns no value either.
\<close>

theorem halfwidth_cases:
  "spec \<noteq> [] \<Longrightarrow>
     (\<exists>maxpos. maxpos < (length spec + 1) div 2
        \<and> (\<forall>j. j < (length spec + 1) div 2 \<longrightarrow> cmod (spec ! j) \<le> cmod (spec ! maxpos))
        \<and> (\<forall>j. j < maxpos \<longrightarrow> cmod (spec ! j) < cmod (spec ! maxpos))
        \<and> (let x = min (int maxpos) (int (length spec) div 2 - 1 - int maxpos)
            in (1 \<le> x \<longrightarrow>
                  (\<exists>k. halfwidth spec = ([], Inr (2 ^ k)) \<and> 2 ^ k \<le> x \<and> x < 2 ^ (k + 1)))
               \<and> (x = 0 \<longrightarrow>
                  halfwidth spec = ([''halfwidth: Error: Maximum is at f=0''], Inl OverflowError))
               \<and> (x < 0 \<longrightarrow> halfwidth spec = ([], Inl ValueError))))"
proof -
  assume ne: "spec \<noteq> []"
  define h where "h = (length spec + 1) div 2"
  define half where "half = map cmod (take h spec)"
  have h: "0 < h" "h \<le> length spec"
    using ne by (cases spec; simp add: h_def)+
  have lh: "length half = h" using h by (simp add: half_def)
  then have "half \<noteq> []" using h by auto
  from argmax_spec [OF this] obtain p where p: "argmax half = Inr p" "p < length half"
    "\<forall>j<length half. half ! j \<le> half ! p" "\<forall>j<p. half ! j < half ! p"
    by blast
  have nth: "half ! j = cmod (spec ! j)" if "j < h" for j
    using that h by (simp add: half_def)
  have ph: "p < h" using p(2) lh by simp
  have max1: "\<forall>j. j < h \<longrightarrow> cmod (spec ! j) \<le> cmod (spec ! p)"
    using p(3) ph lh by (simp add: nth)
  have max2: "\<forall>j. j < p \<longrightarrow> cmod (spec ! j) < cmod (spec ! p)"
    using p(4) ph by (simp add: nth)
  define x where "x = min (int p) (int (length spec) div 2 - 1 - int p)"
  have hw: "halfwidth spec =
      ((if x = 0 then [''halfwidth: Error: Maximum is at f=0''] else []),
       if x = 0 then Inl OverflowError
       else if x < 0 then Inl ValueError
       else Inr (2 ^ nat (trunc (ln (real_of_int x) / ln 2))))"
    by (simp only: halfwidth_def half_slice h_def [symmetric] half_def [symmetric] p(1)
                   sum.case Let_def x_def [symmetric])
  have pos: "\<exists>k. halfwidth spec = ([], Inr (2 ^ k)) \<and> 2 ^ k \<le> x \<and> x < 2 ^ (k + 1)"
    if "1 \<le> x"
  proof -
    have "halfwidth spec = ([], Inr (2 ^ nat (trunc (ln (real_of_int x) / ln 2))))"
      unfolding hw using that by simp
    with pow2_floor_log [OF that] show ?thesis by blast
  qed
  have zero: "halfwidth spec = ([''halfwidth: Error: Maximum is at f=0''], Inl OverflowError)"
    if "x = 0"
    unfolding hw using that by simp
  have neg: "halfwidth spec = ([], Inl ValueError)" if "x < 0"
    unfolding hw using that by simp
  have c1: "1 \<le> x \<longrightarrow>
      (\<exists>k. halfwidth spec = ([], Inr (2 ^ k)) \<and> 2 ^ k \<le> x \<and> x < 2 ^ (k + 1))"
    by (rule impI) (rule pos)
  have c2: "x = 0 \<longrightarrow>
      halfwidth spec = ([''halfwidth: Error: Maximum is at f=0''], Inl OverflowError)"
    by (rule impI) (rule zero)
  have c3: "x < 0 \<longrightarrow> halfwidth spec = ([], Inl ValueError)"
    by (rule impI) (rule neg)
  show ?thesis
    unfolding Let_def h_def [symmetric]
    by (intro exI [of _ p] conjI)
       (rule ph max1 max2 c1 [unfolded x_def] c2 [unfolded x_def] c3 [unfolded x_def])+
qed

theorem halfwidth_cases_witness:
  "\<exists>k. halfwidth [0, 1, 5, 1, 0, 0, 0, 0] = ([], Inr (2 ^ k))
      \<and> (2::int) ^ k \<le> 1 \<and> (1::int) < 2 ^ (k + 1)"
proof -
  have "[0, 1, 5, 1, 0, 0, 0, 0 :: complex] \<noteq> []" by simp
  from halfwidth_cases [OF this] obtain maxpos where
    m: "maxpos < (length [0, 1, 5, 1, 0, 0, 0, 0 :: complex] + 1) div 2"
       "\<forall>j. j < (length [0, 1, 5, 1, 0, 0, 0, 0 :: complex] + 1) div 2 \<longrightarrow>
           cmod ([0, 1, 5, 1, 0, 0, 0, 0] ! j) \<le> cmod ([0, 1, 5, 1, 0, 0, 0, 0] ! maxpos)"
       "let x = min (int maxpos) (int (length [0, 1, 5, 1, 0, 0, 0, 0 :: complex]) div 2 - 1 - int maxpos)
        in (1 \<le> x \<longrightarrow>
              (\<exists>k. halfwidth [0, 1, 5, 1, 0, 0, 0, 0] = ([], Inr (2 ^ k)) \<and> 2 ^ k \<le> x \<and> x < 2 ^ (k + 1)))
           \<and> (x = 0 \<longrightarrow>
              halfwidth [0, 1, 5, 1, 0, 0, 0, 0] = ([''halfwidth: Error: Maximum is at f=0''], Inl OverflowError))
           \<and> (x < 0 \<longrightarrow> halfwidth [0, 1, 5, 1, 0, 0, 0, 0] = ([], Inl ValueError))"
    by blast
  have a: "maxpos < 4" using m(1) by simp
  have b: "5 \<le> cmod ([0, 1, 5, 1, 0, 0, 0, 0] ! maxpos)"
    using m(2) [rule_format, of 2] by simp
  from a consider "maxpos = 0" | "maxpos = 1" | "maxpos = 2" | "maxpos = 3" by linarith
  then have "maxpos = 2" using b by cases simp_all
  with m(3) show ?thesis by (simp add: Let_def)
qed

text \<open>
  C6 as stated promises the largest power of two \<open>\<le> x\<close> whenever \<open>x \<noteq> 0\<close>. For the
  spectrum \<open>[0, 1, 0]\<close> the peak is at bin 1, \<open>x = min(1, 3/2 - 1 - 1) = -1\<close>, and the call
  raises instead of returning.
\<close>

theorem halfwidth_negative_counterexample:
  "halfwidth [0, 1, 0] = ([], Inl ValueError)
   \<and> \<not> (\<exists>p. snd (halfwidth [0, 1, 0]) = Inr p)
   \<and> argmax (map cmod (py_slice [0, 1, 0] 0 ((int (length [0, 1, 0 :: complex]) + 1) div 2))) = Inr 1
   \<and> min (1::int) (int (length [0, 1, 0 :: complex]) div 2 - 1 - 1) = - 1"
  by (simp add: halfwidth_def py_slice_def py_bound_def argmax_def Let_def)


subsection \<open>Helper lemmas: the discrete Fourier transform\<close>

text \<open>The \<open>n\<close>-th roots of unity sum to zero, which makes the inverse transform undo the
  forward one.\<close>

lemma cis_eq_one_imp:
  assumes "cis t = 1"
  shows "\<exists>i::int. t = of_int i * (2 * pi)"
proof -
  have "cos t = 1" using assms by (simp add: complex_eq_iff)
  then obtain i :: int where "t = of_int i * 2 * pi"
    using cos_one_2pi_int by blast
  then show ?thesis by (intro exI [of _ i]) simp
qed

lemma root_sum:
  assumes m: "m < n" and j: "j < n"
  shows "(\<Sum>k<n. cis (2 * pi * real k * (real m - real j) / real n))
         = (if m = j then of_nat n else 0)"
proof (cases "m = j")
  case True
  then show ?thesis by simp
next
  case False
  define t where "t = 2 * pi * (real m - real j) / real n"
  define w where "w = cis t"
  have n0: "0 < real n" using m by simp
  have pow: "cis (2 * pi * real k * (real m - real j) / real n) = w ^ k" for k
    by (simp add: w_def t_def DeMoivre algebra_simps)
  have wn: "w ^ n = 1"
  proof -
    have "w ^ n = cis (real n * t)" by (simp add: w_def DeMoivre)
    also have "real n * t = 2 * pi * (real m - real j)" using n0 by (simp add: t_def)
    also have "\<dots> = 2 * pi * of_int (int m - int j)" by simp
    also have "cis \<dots> = 1" by (rule cis_multiple_2pi) simp
    finally show ?thesis .
  qed
  have w1: "w \<noteq> 1"
  proof
    assume "w = 1"
    then obtain i :: int where i: "t = of_int i * (2 * pi)"
      unfolding w_def using cis_eq_one_imp by blast
    then have "2 * pi * (real m - real j) = 2 * pi * (of_int i * real n)"
      using n0 by (simp add: t_def field_simps)
    then have "real m - real j = of_int i * real n" by simp
    then have "real_of_int (int m - int j) = real_of_int (i * int n)" by simp
    then have eq: "int m - int j = i * int n" by (simp only: of_int_eq_iff)
    have "\<bar>int m - int j\<bar> < int n" using m j by linarith
    then have "\<bar>i\<bar> * int n < 1 * int n" by (simp add: eq abs_mult)
    then have "\<bar>i\<bar> < 1" using m by (simp only: mult_less_cancel_right)
    then have "i = 0" by simp
    then show False using eq False by simp
  qed
  have "(\<Sum>k<n. w ^ k) = (w ^ n - 1) / (w - 1)" using w1 by (rule geometric_sum)
  then have "(\<Sum>k<n. w ^ k) = 0" by (simp add: wn)
  then show ?thesis using False by (simp add: pow)
qed

lemma idft_dft_nth:
  assumes m: "m < n"
  shows "(\<Sum>k<n. ((\<Sum>j<n. f j * cis (- (2 * pi * real j * real k / real n))) / of_nat n)
                * cis (2 * pi * real m * real k / real n))
         = (f m :: complex)"
proof -
  have n0: "of_nat n \<noteq> (0::complex)" using m by simp
  have tk: "((\<Sum>j<n. f j * cis (- (2 * pi * real j * real k / real n))) / of_nat n)
                * cis (2 * pi * real m * real k / real n)
      = (\<Sum>j<n. f j * cis (2 * pi * real k * (real m - real j) / real n)) / of_nat n" for k
  proof -
    have "cis (- (2 * pi * real j * real k / real n)) * cis (2 * pi * real m * real k / real n)
          = cis (2 * pi * real k * (real m - real j) / real n)" for j
      by (simp add: cis_mult algebra_simps diff_divide_distrib)
    then have "(\<Sum>j<n. f j * cis (- (2 * pi * real j * real k / real n)))
                 * cis (2 * pi * real m * real k / real n)
        = (\<Sum>j<n. f j * cis (2 * pi * real k * (real m - real j) / real n))"
      by (simp add: sum_distrib_right mult.assoc)
    then show ?thesis by (simp add: field_simps)
  qed
  have "(\<Sum>k<n. ((\<Sum>j<n. f j * cis (- (2 * pi * real j * real k / real n))) / of_nat n)
                * cis (2 * pi * real m * real k / real n))
      = (\<Sum>k<n. (\<Sum>j<n. f j * cis (2 * pi * real k * (real m - real j) / real n)) / of_nat n)"
    by (simp only: tk)
  also have "\<dots> = (\<Sum>k<n. \<Sum>j<n. f j * cis (2 * pi * real k * (real m - real j) / real n))
                    / of_nat n"
    by (simp add: sum_divide_distrib)
  also have "(\<Sum>k<n. \<Sum>j<n. f j * cis (2 * pi * real k * (real m - real j) / real n))
      = (\<Sum>j<n. \<Sum>k<n. f j * cis (2 * pi * real k * (real m - real j) / real n))"
    by (rule sum.swap)
  also have "\<dots> = (\<Sum>j<n. f j * (\<Sum>k<n. cis (2 * pi * real k * (real m - real j) / real n)))"
    by (simp add: sum_distrib_left)
  also have "\<dots> = (\<Sum>j<n. f j * (if m = j then of_nat n else 0))"
    by (intro sum.cong refl) (simp only: root_sum [OF m] lessThan_iff)
  also have "\<dots> = (\<Sum>j<n. if j = m then f m * of_nat n else 0)"
    by (intro sum.cong refl) auto
  also have "\<dots> = f m * of_nat n" using m by (simp add: sum.delta)
  finally show ?thesis using n0 by simp
qed

subsection \<open>Claims about spectrum and ispectrum\<close>

text \<open>
  C1. For every finite complex sequence \<open>x\<close> of length at least 1 (a real sequence is the
  special case of zero imaginary parts), \<open>ispectrum(spectrum(x))\<close> raises nothing and
  equals \<open>x\<close>, exactly over the reals, where \<open>spectrum(x)\<close> is the FFT of \<open>x\<close> divided by
  its length and \<open>ispectrum(s)\<close> is the inverse FFT of \<open>s\<close> multiplied by its length.
\<close>

theorem spectrum_roundtrip:
  "x \<noteq> [] \<Longrightarrow> bind_err (spectrum x) ispectrum = Inr x"
proof -
  assume ne: "x \<noteq> []"
  define n where "n = length x"
  have n0: "0 < n" using ne by (simp add: n_def)
  define s where "s = map (\<lambda>k. (\<Sum>j<n. x ! j * cis (- (2 * pi * real j * real k / real n)))
                                  / of_nat n) [0..<n]"
  have ls: "length s = n" by (simp add: s_def)
  have sp: "spectrum x = Inr s"
    using n0 by (simp add: spectrum_def fft_def bind_err_def Let_def s_def n_def [symmetric] comp_def)
  have isp: "ispectrum s =
      Inr (map (\<lambda>m. (\<Sum>k<n. s ! k * cis (2 * pi * real m * real k / real n)) / of_nat n * of_nat n)
               [0..<n])"
    using n0 by (simp add: ispectrum_def ifft_def bind_err_def Let_def ls comp_def)
  have "map (\<lambda>m. (\<Sum>k<n. s ! k * cis (2 * pi * real m * real k / real n)) / of_nat n * of_nat n)
            [0..<n] = x"
  proof (rule nth_equalityI)
    show "length (map (\<lambda>m. (\<Sum>k<n. s ! k * cis (2 * pi * real m * real k / real n))
                              / of_nat n * of_nat n) [0..<n]) = length x"
      by (simp add: n_def)
  next
    fix m
    assume "m < length (map (\<lambda>m. (\<Sum>k<n. s ! k * cis (2 * pi * real m * real k / real n))
                              / of_nat n * of_nat n) [0..<n])"
    then have m: "m < n" by simp
    have "(\<Sum>k<n. s ! k * cis (2 * pi * real m * real k / real n))
        = (\<Sum>k<n. ((\<Sum>j<n. x ! j * cis (- (2 * pi * real j * real k / real n))) / of_nat n)
                * cis (2 * pi * real m * real k / real n))"
      by (intro sum.cong refl) (simp add: s_def)
    also have "\<dots> = x ! m" using m by (rule idft_dft_nth)
    finally show "map (\<lambda>m. (\<Sum>k<n. s ! k * cis (2 * pi * real m * real k / real n))
                              / of_nat n * of_nat n) [0..<n] ! m = x ! m"
      using m n0 by simp
  qed
  then show ?thesis by (simp add: sp isp bind_err_def)
qed

theorem spectrum_roundtrip_witness:
  "bind_err (spectrum [1, \<i>, - 2]) ispectrum = Inr [1, \<i>, - 2]"
  using spectrum_roundtrip [of "[1, \<i>, - 2]"] by simp


end
